theory Spec2Isabelle
  imports Main "HOL-Library.Word"
begin

section \<open>Tokens and the lexer state (src/lexr.cpp, lines 24-58)\<close>

text \<open>
  The token kinds of \<^verbatim>\<open>enum class TokenType\<close>, in the order of the source.
\<close>

datatype TokenType =
    NUMBER | IDENTIFIER | EQUALS | PLUS | MINUS | STAR | SLASH
  | OPEN_PAREN | CLOSE_PAREN | LET | ILLEGAL | END_OF_FILE

text \<open>\<^verbatim>\<open>struct Token { TokenType type; std::string literal; }\<close>\<close>

record Token =
  type :: TokenType
  literal :: string

text \<open>
  \<^verbatim>\<open>size_t\<close> is the unsigned 64-bit integer of the usual 64-bit platforms: addition and
  subtraction wrap around. The largest value is \<open>SIZE_MAX\<close>; it is also
  \<^verbatim>\<open>std::string::npos\<close>, so every \<^verbatim>\<open>std::string\<close> is shorter than \<open>SIZE_MAX\<close>.
\<close>

type_synonym size_t = "64 word"

definition SIZE_MAX :: nat where
  "SIZE_MAX = 2 ^ 64 - 1"

text \<open>
  The private fields of \<^verbatim>\<open>class Lexer\<close>. A \<^verbatim>\<open>std::string\<close> is a sequence of bytes,
  here a \<^typ>\<open>string\<close> (a list of 8-bit \<^typ>\<open>char\<close>s, the NUL byte included). Its
  \<^verbatim>\<open>length()\<close> is a \<^verbatim>\<open>size_t\<close>, as the two counters are.
\<close>

record Lexer =
  input :: string
  position :: size_t
  readPosition :: size_t
  ch :: char

text \<open>The only exception the lexer's own code can raise: \<^verbatim>\<open>std::out_of_range\<close> from
  \<^verbatim>\<open>std::string::substr\<close>, when the start index lies beyond the end of the string.\<close>

datatype error = OutOfRange

definition substr :: "string \<Rightarrow> size_t \<Rightarrow> size_t \<Rightarrow> error + string" where
  "substr s pos n =
     (if of_nat (length s) < pos then Inl OutOfRange
      else Inr (take (unat n) (drop (unat pos) s)))"

section \<open>Character classes\<close>

text \<open>
  The guard of the loop in \<^verbatim>\<open>skipWhitespace\<close>: space, tab, newline, carriage return.
\<close>

definition isWhitespace :: "char \<Rightarrow> bool" where
  "isWhitespace c \<longleftrightarrow> c = CHR '' '' \<or> c = CHR 0x09 \<or> c = CHR 0x0A \<or> c = CHR 0x0D"

text \<open>
  \<^verbatim>\<open>isdigit\<close> and \<^verbatim>\<open>isalpha\<close> of the C library in the "C" locale (the program never
  changes the locale): the ten decimal digits, and the 52 ASCII letters. Every other byte,
  the bytes from 128 on included, is in neither class (where \<^verbatim>\<open>char\<close> is signed the C
  standard leaves the call on such a byte undefined; the common C libraries answer no).
\<close>

definition isdigit :: "char \<Rightarrow> bool" where
  "isdigit c \<longleftrightarrow> c \<in> set ''0123456789''"

definition isalpha :: "char \<Rightarrow> bool" where
  "isalpha c \<longleftrightarrow> c \<in> set ''abcdefghijklmnopqrstuvwxyzABCDEFGHIJKLMNOPQRSTUVWXYZ''"

section \<open>The lexer's operations (src/lexr.cpp, lines 62-158)\<close>

text \<open>\<^verbatim>\<open>readChar\<close>: load the character at \<^verbatim>\<open>readPosition\<close> (0 beyond the end), then
  move both counters; \<^verbatim>\<open>readPosition++\<close> wraps to 0 at the largest \<^verbatim>\<open>size_t\<close>.\<close>

definition readChar :: "Lexer \<Rightarrow> Lexer" where
  "readChar l =
     l\<lparr>ch := (if of_nat (length (input l)) \<le> readPosition l then CHR 0x00
              else input l ! unat (readPosition l)),
       position := readPosition l,
       readPosition := readPosition l + 1\<rparr>"

text \<open>
  The measure of the three loops: one more than the number of characters not yet loaded
  while the current character is not 0, and 0 once it is. (With \<^verbatim>\<open>readPosition\<close> at
  or beyond the length the next character is 0; below the length the increment does not
  wrap.)
\<close>

definition remaining :: "Lexer \<Rightarrow> nat" where
  "remaining l =
     (if ch l = CHR 0x00 then 0
      else Suc (unat (of_nat (length (input l)) :: size_t) - unat (readPosition l)))"

lemma unat_succ_below:
  fixes r x :: size_t
  assumes "r < x"
  shows "unat (r + 1) = Suc (unat r)"
proof -
  from assms have "unat r < unat x" by (simp add: word_less_nat_alt)
  moreover have "unat x < 2 ^ 64" using unsigned_less [of x] by simp
  ultimately have "unat r + unat (1 :: size_t) < 2 ^ LENGTH(64)" by simp
  then show ?thesis by (simp add: unat_add_lem [THEN iffD1])
qed

lemma remaining_readChar: "ch l \<noteq> CHR 0x00 \<Longrightarrow> remaining (readChar l) < remaining l"
proof -
  assume nz: "ch l \<noteq> CHR 0x00"
  let ?n = "of_nat (length (input l)) :: size_t"
  show ?thesis
  proof (cases "?n \<le> readPosition l")
    case True
    then show ?thesis using nz by (simp add: remaining_def readChar_def)
  next
    case False
    then have lt: "readPosition l < ?n" by simp
    then have "unat (readPosition l + 1) = Suc (unat (readPosition l))"
      by (rule unat_succ_below)
    moreover from lt have "unat (readPosition l) < unat ?n"
      by (simp add: word_less_nat_alt)
    ultimately show ?thesis using nz by (auto simp: remaining_def readChar_def)
  qed
qed

lemma isWhitespace_not_nul: "isWhitespace c \<Longrightarrow> c \<noteq> CHR 0x00"
  by (auto simp: isWhitespace_def)

lemma isdigit_not_nul: "isdigit c \<Longrightarrow> c \<noteq> CHR 0x00"
  by (auto simp: isdigit_def)

lemma isalpha_not_nul: "isalpha c \<Longrightarrow> c \<noteq> CHR 0x00"
  by (auto simp: isalpha_def)

text \<open>\<^verbatim>\<open>skipWhitespace\<close>: \<^verbatim>\<open>while (ch == ' ' || ch == '\t' || ch == '\n' || ch == '\r') readChar();\<close>\<close>

function skipWhitespace :: "Lexer \<Rightarrow> Lexer" where
  "skipWhitespace l = (if isWhitespace (ch l) then skipWhitespace (readChar l) else l)"
  by pat_completeness auto
termination
  by (relation "measure remaining") (auto dest: isWhitespace_not_nul remaining_readChar)

declare skipWhitespace.simps [simp del]

text \<open>The loop of \<^verbatim>\<open>readNumber\<close>: \<^verbatim>\<open>while (isdigit(ch)) readChar();\<close>\<close>

function readNumber_loop :: "Lexer \<Rightarrow> Lexer" where
  "readNumber_loop l = (if isdigit (ch l) then readNumber_loop (readChar l) else l)"
  by pat_completeness auto
termination
  by (relation "measure remaining") (auto dest: isdigit_not_nul remaining_readChar)

declare readNumber_loop.simps [simp del]

text \<open>\<^verbatim>\<open>readNumber\<close>: remember the start, run the loop, cut the lexeme out of the input.\<close>

definition readNumber :: "Lexer \<Rightarrow> error + (string \<times> Lexer)" where
  "readNumber l =
     (let startPos = position l;
          l' = readNumber_loop l
      in case substr (input l') startPos (position l' - startPos) of
           Inl e \<Rightarrow> Inl e
         | Inr s \<Rightarrow> Inr (s, l'))"

text \<open>The loop of \<^verbatim>\<open>readIdentifier\<close>: \<^verbatim>\<open>while (isalpha(ch) || ch == '_') readChar();\<close>\<close>

function readIdentifier_loop :: "Lexer \<Rightarrow> Lexer" where
  "readIdentifier_loop l =
     (if isalpha (ch l) \<or> ch l = CHR ''_'' then readIdentifier_loop (readChar l) else l)"
  by pat_completeness auto
termination
  by (relation "measure remaining") (auto intro!: remaining_readChar dest: isalpha_not_nul)

declare readIdentifier_loop.simps [simp del]

definition readIdentifier :: "Lexer \<Rightarrow> error + (string \<times> Lexer)" where
  "readIdentifier l =
     (let startPos = position l;
          l' = readIdentifier_loop l
      in case substr (input l') startPos (position l' - startPos) of
           Inl e \<Rightarrow> Inl e
         | Inr s \<Rightarrow> Inr (s, l'))"

text \<open>The constructor: both counters 0, then one \<^verbatim>\<open>readChar\<close>.\<close>

definition new_Lexer :: "string \<Rightarrow> Lexer" where
  "new_Lexer inp = readChar \<lparr>input = inp, position = 0, readPosition = 0, ch = CHR 0x00\<rparr>"

text \<open>
  \<^verbatim>\<open>nextToken\<close>. The cases of the \<^verbatim>\<open>switch\<close> that end in \<^verbatim>\<open>break\<close> (the seven symbols,
  the character 0, and a \<^verbatim>\<open>default\<close> that is neither digit nor letter nor underscore,
  which keeps the ILLEGAL token made before the \<^verbatim>\<open>switch\<close>) reach the \<^verbatim>\<open>readChar\<close>
  of line 156; the digit and the letter case return from inside the \<^verbatim>\<open>switch\<close>.
\<close>

definition nextToken :: "Lexer \<Rightarrow> error + (Token \<times> Lexer)" where
  "nextToken l0 =
     (let l = skipWhitespace l0;
          tok = \<lparr>type = ILLEGAL, literal = [ch l]\<rparr>
      in if ch l = CHR ''='' then Inr (\<lparr>type = EQUALS, literal = ''=''\<rparr>, readChar l)
         else if ch l = CHR ''+'' then Inr (\<lparr>type = PLUS, literal = ''+''\<rparr>, readChar l)
         else if ch l = CHR ''-'' then Inr (\<lparr>type = MINUS, literal = ''-''\<rparr>, readChar l)
         else if ch l = CHR ''*'' then Inr (\<lparr>type = STAR, literal = ''*''\<rparr>, readChar l)
         else if ch l = CHR ''/'' then Inr (\<lparr>type = SLASH, literal = ''/''\<rparr>, readChar l)
         else if ch l = CHR ''('' then Inr (\<lparr>type = OPEN_PAREN, literal = ''(''\<rparr>, readChar l)
         else if ch l = CHR '')'' then Inr (\<lparr>type = CLOSE_PAREN, literal = '')''\<rparr>, readChar l)
         else if ch l = CHR 0x00 then Inr (\<lparr>type = END_OF_FILE, literal = []\<rparr>, readChar l)
         else if isdigit (ch l) then
           (case readNumber l of
              Inl e \<Rightarrow> Inl e
            | Inr (num, l') \<Rightarrow> Inr (\<lparr>type = NUMBER, literal = num\<rparr>, l'))
         else if isalpha (ch l) \<or> ch l = CHR ''_'' then
           (case readIdentifier l of
              Inl e \<Rightarrow> Inl e
            | Inr (ident, l') \<Rightarrow>
                if ident = ''let'' then Inr (\<lparr>type = LET, literal = ident\<rparr>, l')
                else Inr (\<lparr>type = IDENTIFIER, literal = ident\<rparr>, l'))
         else Inr (tok, readChar l))"

section \<open>Running the lexer\<close>

text \<open>Every step of the lexer that leaves a non-zero current character behind lowers
  the measure; this is what makes the driver loop below total.\<close>

lemma remaining_skipWhitespace: "remaining (skipWhitespace l) \<le> remaining l"
proof (induction l rule: skipWhitespace.induct)
  case (1 l)
  show ?case
  proof (cases "isWhitespace (ch l)")
    case True
    then have "remaining (readChar l) < remaining l"
      by (intro remaining_readChar isWhitespace_not_nul)
    with 1 True show ?thesis by (simp add: skipWhitespace.simps [of l])
  next
    case False
    then show ?thesis by (simp add: skipWhitespace.simps [of l])
  qed
qed

lemma remaining_readNumber_loop: "remaining (readNumber_loop l) \<le> remaining l"
proof (induction l rule: readNumber_loop.induct)
  case (1 l)
  show ?case
  proof (cases "isdigit (ch l)")
    case True
    then have "remaining (readChar l) < remaining l"
      by (intro remaining_readChar isdigit_not_nul)
    with 1 True show ?thesis by (simp add: readNumber_loop.simps [of l])
  next
    case False
    then show ?thesis by (simp add: readNumber_loop.simps [of l])
  qed
qed

lemma remaining_readIdentifier_loop: "remaining (readIdentifier_loop l) \<le> remaining l"
proof (induction l rule: readIdentifier_loop.induct)
  case (1 l)
  show ?case
  proof (cases "isalpha (ch l) \<or> ch l = CHR ''_''")
    case True
    then have "ch l \<noteq> CHR 0x00" by (auto dest: isalpha_not_nul)
    then have "remaining (readChar l) < remaining l"
      by (rule remaining_readChar)
    with 1 True show ?thesis by (simp add: readIdentifier_loop.simps [of l])
  next
    case False
    then show ?thesis by (simp add: readIdentifier_loop.simps [of l])
  qed
qed

lemma readNumber_remaining:
  assumes "isdigit (ch l)" and "readNumber l = Inr (s, l')"
  shows "remaining l' < remaining l"
proof -
  from assms(2) have "l' = readNumber_loop l"
    by (auto simp: readNumber_def Let_def split: sum.splits)
  also have "\<dots> = readNumber_loop (readChar l)"
    using assms(1) by (simp add: readNumber_loop.simps [of l])
  finally have "remaining l' \<le> remaining (readChar l)"
    by (simp add: remaining_readNumber_loop)
  also have "\<dots> < remaining l"
    using assms(1) by (intro remaining_readChar isdigit_not_nul)
  finally show ?thesis .
qed

lemma readIdentifier_remaining:
  assumes "isalpha (ch l) \<or> ch l = CHR ''_''" and "readIdentifier l = Inr (s, l')"
  shows "remaining l' < remaining l"
proof -
  from assms(1) have nz: "ch l \<noteq> CHR 0x00" by (auto dest: isalpha_not_nul)
  from assms(2) have "l' = readIdentifier_loop l"
    by (auto simp: readIdentifier_def Let_def split: sum.splits)
  also have "\<dots> = readIdentifier_loop (readChar l)"
    using assms(1) by (simp add: readIdentifier_loop.simps [of l])
  finally have "remaining l' \<le> remaining (readChar l)"
    by (simp add: remaining_readIdentifier_loop)
  also have "\<dots> < remaining l"
    using nz by (rule remaining_readChar)
  finally show ?thesis .
qed

lemma nextToken_remaining:
  assumes "nextToken l = Inr (tok, l')" and "type tok \<noteq> END_OF_FILE"
  shows "remaining l' < remaining l"
proof -
  define l1 where "l1 = skipWhitespace l"
  have le: "remaining l1 \<le> remaining l"
    unfolding l1_def by (rule remaining_skipWhitespace)
  have "remaining l' < remaining l1"
  proof (cases "ch l1 = CHR 0x00")
    case True
    with assms show ?thesis
      by (auto simp: nextToken_def Let_def l1_def [symmetric])
  next
    case nz: False
    show ?thesis
    proof (cases "isdigit (ch l1)")
      case True
      with assms nz obtain s where "readNumber l1 = Inr (s, l')"
        by (auto simp: nextToken_def Let_def l1_def [symmetric] isdigit_def
                 split: if_splits sum.splits)
      with True show ?thesis by (rule readNumber_remaining)
    next
      case nd: False
      show ?thesis
      proof (cases "isalpha (ch l1) \<or> ch l1 = CHR ''_''")
        case True
        with assms nz nd obtain s where "readIdentifier l1 = Inr (s, l')"
          by (auto simp: nextToken_def Let_def l1_def [symmetric] isalpha_def
                   split: if_splits sum.splits)
        with True show ?thesis by (rule readIdentifier_remaining)
      next
        case False
        with assms nz nd have "l' = readChar l1"
          by (auto simp: nextToken_def Let_def l1_def [symmetric] split: if_splits)
        with nz show ?thesis by (simp add: remaining_readChar)
      qed
    qed
  qed
  with le show ?thesis by simp
qed

text \<open>
  The loop of \<^verbatim>\<open>main\<close> (lines 188-194): call \<^verbatim>\<open>nextToken\<close> until it returns the first
  END_OF_FILE token. The trace keeps, for every call, the state before, the token returned
  and the state after.
\<close>

function trace :: "Lexer \<Rightarrow> error + (Lexer \<times> Token \<times> Lexer) list" where
  "trace l =
     (case nextToken l of
        Inl e \<Rightarrow> Inl e
      | Inr (tok, l') \<Rightarrow>
          if type tok = END_OF_FILE then Inr [(l, tok, l')]
          else (case trace l' of
                  Inl e \<Rightarrow> Inl e
                | Inr es \<Rightarrow> Inr ((l, tok, l') # es)))"
  by pat_completeness auto
termination
  by (relation "measure remaining") (auto dest: nextToken_remaining)

declare trace.simps [simp del]

text \<open>The tokens that the loop of \<^verbatim>\<open>main\<close> sees for an input, the final END_OF_FILE included.\<close>

definition tokens :: "string \<Rightarrow> error + Token list" where
  "tokens inp =
     (case trace (new_Lexer inp) of
        Inl e \<Rightarrow> Inl e
      | Inr es \<Rightarrow> Inr (map (\<lambda>(l, tok, l'). tok) es))"

section \<open>The lexer on well-formed states\<close>

text \<open>
  The part of the input that the lexer can reach: \<^verbatim>\<open>readChar\<close> compares
  \<^verbatim>\<open>readPosition\<close> with \<^verbatim>\<open>input.length()\<close>, a \<^verbatim>\<open>size_t\<close>. For every string shorter
  than \<open>2 ^ 64\<close>, so for every \<^verbatim>\<open>std::string\<close>, this is the whole input.
\<close>

definition visible :: "string \<Rightarrow> string" where
  "visible inp = take (unat (of_nat (length inp) :: size_t)) inp"

text \<open>
  The text from the character at index \<open>p\<close> (taken as a \<^verbatim>\<open>size_t\<close>) on, and the states
  the lexer can be in: \<^verbatim>\<open>readPosition\<close> one more than \<^verbatim>\<open>position\<close> (as \<^verbatim>\<open>size_t\<close>
  values, so with wrap-around), and the current character the first of that text, or 0
  when there is none.
\<close>

definition rest :: "string \<Rightarrow> nat \<Rightarrow> string" where
  "rest inp p = drop (unat (of_nat p :: size_t)) (visible inp)"

definition cursor :: "string \<Rightarrow> nat \<Rightarrow> Lexer" where
  "cursor inp p =
     \<lparr>input = inp, position = of_nat p, readPosition = of_nat (Suc p),
      ch = (case rest inp p of [] \<Rightarrow> CHR 0x00 | c # cs \<Rightarrow> c)\<rparr>"

lemma length_visible: "length (visible inp) = unat (of_nat (length inp) :: size_t)"
proof -
  have "unat (of_nat (length inp) :: size_t) \<le> length inp"
    by (simp add: unat_of_nat)
  then show ?thesis by (simp add: visible_def)
qed

lemma visible_id: "length inp < 2 ^ 64 \<Longrightarrow> visible inp = inp"
  by (simp add: visible_def unat_of_nat)

lemma rest_small:
  assumes "length inp < 2 ^ 64" and "p < 2 ^ 64"
  shows "rest inp p = drop p inp"
  using assms by (simp add: rest_def visible_id unat_of_nat)

lemma length_rest:
  "length (rest inp p) = unat (of_nat (length inp) :: size_t) - unat (of_nat p :: size_t)"
  by (simp add: rest_def length_visible)

lemma length_rest_le: "length (rest inp p) \<le> length inp - unat (of_nat p :: size_t)"
proof -
  have "unat (of_nat (length inp) :: size_t) \<le> length inp"
    by (simp add: unat_of_nat)
  then show ?thesis unfolding length_rest by arith
qed

lemma char_at_end:
  fixes w :: size_t
  assumes "of_nat (length inp) \<le> w"
  shows "drop (unat w) (visible inp) = []"
  using assms by (simp add: length_visible word_le_nat_alt)

lemma char_at_in:
  fixes w :: size_t
  assumes "\<not> of_nat (length inp) \<le> w"
  shows "drop (unat w) (visible inp) = inp ! unat w # drop (Suc (unat w)) (visible inp)"
proof -
  from assms have lt: "unat w < length (visible inp)"
    by (simp add: length_visible word_le_nat_alt)
  then have "drop (unat w) (visible inp) = visible inp ! unat w # drop (Suc (unat w)) (visible inp)"
    by (simp add: Cons_nth_drop_Suc)
  moreover have "visible inp ! unat w = inp ! unat w"
    using lt by (simp add: visible_def)
  ultimately show ?thesis by simp
qed

lemma cursor_sel [simp]:
  "input (cursor inp p) = inp"
  "position (cursor inp p) = of_nat p"
  "readPosition (cursor inp p) = of_nat (Suc p)"
  "ch (cursor inp p) = (case rest inp p of [] \<Rightarrow> CHR 0x00 | c # cs \<Rightarrow> c)"
  by (simp_all add: cursor_def)

lemma readChar_cursor [simp]: "readChar (cursor inp p) = cursor inp (Suc p)"
  by (cases "(of_nat (length inp) :: size_t) \<le> 1 + of_nat p")
     (simp_all add: readChar_def cursor_def rest_def char_at_end char_at_in)

lemma new_Lexer_cursor: "new_Lexer inp = cursor inp 0"
proof (cases "(of_nat (length inp) :: size_t) \<le> 0")
  case True
  then have "drop (unat (0 :: size_t)) (visible inp) = []"
    by (rule char_at_end)
  then have "visible inp = []" by simp
  with True show ?thesis
    by (simp add: new_Lexer_def readChar_def cursor_def rest_def)
next
  case False
  then have "drop (unat (0 :: size_t)) (visible inp) =
      inp ! unat (0 :: size_t) # drop (Suc (unat (0 :: size_t))) (visible inp)"
    by (rule char_at_in)
  then obtain cs where "visible inp = inp ! 0 # cs" by simp
  with False show ?thesis
    by (simp add: new_Lexer_def readChar_def cursor_def rest_def)
qed

lemma cursor_mod: "cursor inp p = cursor inp (unat (of_nat p :: size_t))"
  by (simp add: cursor_def rest_def)

lemma rest_Suc:
  assumes "rest inp p = c # cs"
  shows "rest inp (Suc p) = cs"
proof -
  let ?i = "unat (of_nat p :: size_t)"
  from assms have "?i < length (visible inp)"
    by (metis rest_def drop_eq_Nil list.distinct(1) not_le)
  then have "(of_nat p :: size_t) < of_nat (length inp)"
    by (simp add: length_visible word_less_nat_alt)
  then have "unat ((of_nat p :: size_t) + 1) = Suc ?i"
    by (rule unat_succ_below)
  then have "unat (of_nat (Suc p) :: size_t) = Suc ?i"
    by (simp add: add.commute)
  then have "rest inp (Suc p) = drop (Suc ?i) (visible inp)"
    unfolding rest_def by (simp only:)
  also have "\<dots> = tl (drop ?i (visible inp))"
    by (simp add: drop_Suc drop_tl)
  also have "\<dots> = cs" using assms by (simp add: rest_def)
  finally show ?thesis .
qed

lemma rest_add:
  assumes "k \<le> length (rest inp p)"
  shows "rest inp (p + k) = drop k (rest inp p)"
  using assms
proof (induction k)
  case 0
  show ?case by simp
next
  case (Suc k)
  then have ih: "rest inp (p + k) = drop k (rest inp p)" by simp
  from Suc.prems have "k < length (rest inp p)" by simp
  then have "drop k (rest inp p) = rest inp p ! k # drop (Suc k) (rest inp p)"
    by (simp add: Cons_nth_drop_Suc)
  with ih have "rest inp (Suc (p + k)) = drop (Suc k) (rest inp p)"
    by (intro rest_Suc) simp
  then show ?case by simp
qed

lemma loop_cursor:
  assumes step: "\<And>l. f l = (if P (ch l) then f (readChar l) else l)"
    and nul: "\<not> P (CHR 0x00)"
  shows "f (cursor inp p) = cursor inp (p + length (takeWhile P (rest inp p)))"
proof (induction "length (rest inp p)" arbitrary: p)
  case 0
  then have "rest inp p = []" by simp
  then show ?case using nul by (subst step) simp
next
  case (Suc n)
  then obtain c cs where r: "rest inp p = c # cs"
    by (cases "rest inp p") auto
  then have r': "rest inp (Suc p) = cs" by (rule rest_Suc)
  show ?case
  proof (cases "P c")
    case True
    have "f (cursor inp p) = f (cursor inp (Suc p))"
      using True r by (subst step) simp
    also have "\<dots> = cursor inp (Suc p + length (takeWhile P (rest inp (Suc p))))"
      using Suc.hyps(2) r r' by (intro Suc.hyps(1)) simp
    finally show ?thesis using True r r' by simp
  next
    case False
    then show ?thesis using r by (subst step) simp
  qed
qed

lemma iterate_readChar_cursor: "(readChar ^^ k) (cursor inp p) = cursor inp (p + k)"
  by (induction k) simp_all

lemma skipWhitespace_cursor:
  "skipWhitespace (cursor inp p) = cursor inp (p + length (takeWhile isWhitespace (rest inp p)))"
  by (rule loop_cursor) (auto simp: skipWhitespace.simps [symmetric] dest: isWhitespace_not_nul)

lemma readNumber_loop_cursor:
  "readNumber_loop (cursor inp p) = cursor inp (p + length (takeWhile isdigit (rest inp p)))"
  by (rule loop_cursor) (auto simp: readNumber_loop.simps [symmetric] dest: isdigit_not_nul)

text \<open>The guard of the loop in \<^verbatim>\<open>readIdentifier\<close>.\<close>

definition isIdentChar :: "char \<Rightarrow> bool" where
  "isIdentChar c \<longleftrightarrow> isalpha c \<or> c = CHR ''_''"

lemma readIdentifier_loop_cursor:
  "readIdentifier_loop (cursor inp p) =
     cursor inp (p + length (takeWhile isIdentChar (rest inp p)))"
proof (rule loop_cursor)
  show "readIdentifier_loop l =
          (if isIdentChar (ch l) then readIdentifier_loop (readChar l) else l)" for l
    unfolding isIdentChar_def by (rule readIdentifier_loop.simps)
  show "\<not> isIdentChar (CHR 0x00)"
    by (auto simp: isIdentChar_def dest: isalpha_not_nul)
qed

lemma substr_cursor:
  assumes ne: "rest inp p \<noteq> []" and k: "k \<le> length (rest inp p)"
  shows "substr inp (of_nat p) (of_nat (p + k) - of_nat p) = Inr (take k (rest inp p))"
proof -
  let ?i = "unat (of_nat p :: size_t)"
  let ?L = "unat (of_nat (length inp) :: size_t)"
  from ne have i: "?i < ?L"
    using length_rest [of inp p] by (cases "rest inp p") auto
  then have nothrow: "\<not> (of_nat (length inp) :: size_t) < of_nat p"
    by (simp add: word_less_nat_alt)
  have "?L < 2 ^ 64" using unsigned_less [of "of_nat (length inp) :: size_t"] by simp
  with k i have "k < 2 ^ 64" using length_rest [of inp p] by simp
  then have uk: "unat (of_nat k :: size_t) = k" by (simp add: unat_of_nat)
  have "take k (rest inp p) = take k (drop ?i (take ?L inp))"
    by (simp add: rest_def visible_def)
  also have "\<dots> = take k (take (?L - ?i) (drop ?i inp))"
    by (simp add: drop_take)
  also have "\<dots> = take k (drop ?i inp)"
    using k length_rest [of inp p] by (simp add: min_def)
  finally show ?thesis using nothrow by (simp add: substr_def uk)
qed

lemma readNumber_cursor:
  assumes "rest inp p \<noteq> []"
  shows "readNumber (cursor inp p) =
           Inr (takeWhile isdigit (rest inp p),
                cursor inp (p + length (takeWhile isdigit (rest inp p))))"
  using substr_cursor [OF assms length_takeWhile_le [of isdigit "rest inp p"]]
  by (simp add: readNumber_def readNumber_loop_cursor takeWhile_eq_take [symmetric])

lemma readIdentifier_cursor:
  assumes "rest inp p \<noteq> []"
  shows "readIdentifier (cursor inp p) =
           Inr (takeWhile isIdentChar (rest inp p),
                cursor inp (p + length (takeWhile isIdentChar (rest inp p))))"
  using substr_cursor [OF assms length_takeWhile_le [of isIdentChar "rest inp p"]]
  by (simp add: readIdentifier_def readIdentifier_loop_cursor takeWhile_eq_take [symmetric])

text \<open>
  What \<^verbatim>\<open>nextToken\<close> computes, read off the text that starts at the first character that
  is not whitespace: the token, and how far the cursor moves.
\<close>

definition classify :: "string \<Rightarrow> Token" where
  "classify xs =
     (case xs of
        [] \<Rightarrow> \<lparr>type = END_OF_FILE, literal = []\<rparr>
      | c # cs \<Rightarrow>
          if c = CHR ''='' then \<lparr>type = EQUALS, literal = ''=''\<rparr>
          else if c = CHR ''+'' then \<lparr>type = PLUS, literal = ''+''\<rparr>
          else if c = CHR ''-'' then \<lparr>type = MINUS, literal = ''-''\<rparr>
          else if c = CHR ''*'' then \<lparr>type = STAR, literal = ''*''\<rparr>
          else if c = CHR ''/'' then \<lparr>type = SLASH, literal = ''/''\<rparr>
          else if c = CHR ''('' then \<lparr>type = OPEN_PAREN, literal = ''(''\<rparr>
          else if c = CHR '')'' then \<lparr>type = CLOSE_PAREN, literal = '')''\<rparr>
          else if c = CHR 0x00 then \<lparr>type = END_OF_FILE, literal = []\<rparr>
          else if isdigit c then \<lparr>type = NUMBER, literal = takeWhile isdigit xs\<rparr>
          else if isIdentChar c then
            \<lparr>type = (if takeWhile isIdentChar xs = ''let'' then LET else IDENTIFIER),
             literal = takeWhile isIdentChar xs\<rparr>
          else \<lparr>type = ILLEGAL, literal = [c]\<rparr>)"

definition advance :: "Token \<Rightarrow> nat" where
  "advance tok = (if type tok = END_OF_FILE then 1 else length (literal tok))"

lemma nextToken_at:
  assumes "\<not> isWhitespace (ch (cursor inp r))"
  shows "nextToken (cursor inp r) =
           Inr (classify (rest inp r), cursor inp (r + advance (classify (rest inp r))))"
proof -
  have sk: "skipWhitespace (cursor inp r) = cursor inp r"
    using assms by (subst skipWhitespace.simps) simp
  show ?thesis
  proof (cases "rest inp r")
    case Nil
    then show ?thesis
      by (simp add: nextToken_def sk classify_def advance_def)
  next
    case (Cons c cs)
    then have ne: "rest inp r \<noteq> []" by simp
    have c: "ch (cursor inp r) = c" using Cons by simp
    show ?thesis
      unfolding nextToken_def sk Let_def c readNumber_cursor [OF ne]
        readIdentifier_cursor [OF ne] isIdentChar_def [symmetric]
      by (simp add: classify_def advance_def Cons)
  qed
qed

lemma skipWhitespace_stops: "\<not> isWhitespace (ch (skipWhitespace l))"
proof (induction l rule: skipWhitespace.induct)
  case (1 l)
  then show ?case by (cases "isWhitespace (ch l)") (simp_all add: skipWhitespace.simps [of l])
qed

lemma nextToken_cursor:
  fixes inp p
  defines "r \<equiv> p + length (takeWhile isWhitespace (rest inp p))"
  shows "nextToken (cursor inp p) =
           Inr (classify (rest inp r), cursor inp (r + advance (classify (rest inp r))))"
proof -
  have sk: "skipWhitespace (cursor inp p) = cursor inp r"
    unfolding r_def by (rule skipWhitespace_cursor)
  have nw: "\<not> isWhitespace (ch (cursor inp r))"
    using skipWhitespace_stops [of "cursor inp p"] unfolding sk .
  then have "skipWhitespace (cursor inp r) = cursor inp r"
    by (subst skipWhitespace.simps) simp
  then have "nextToken (cursor inp p) = nextToken (cursor inp r)"
    by (simp add: nextToken_def sk)
  then show ?thesis using nextToken_at [OF nw] by simp
qed

section \<open>Sequences of calls\<close>

text \<open>
  A fixed number of successive calls of \<^verbatim>\<open>nextToken\<close>: the tokens returned, in order,
  and the state after the last call. The states a caller can ever see are the results of
  \<open>calls (new_Lexer inp) n\<close>.
\<close>

fun calls :: "Lexer \<Rightarrow> nat \<Rightarrow> error + (Token list \<times> Lexer)" where
  "calls l 0 = Inr ([], l)"
| "calls l (Suc n) =
     (case nextToken l of
        Inl e \<Rightarrow> Inl e
      | Inr (tok, l') \<Rightarrow>
          (case calls l' n of
             Inl e \<Rightarrow> Inl e
           | Inr (toks, l'') \<Rightarrow> Inr (tok # toks, l'')))"

text \<open>
  What one call moves the cursor over: the characters of the input between
  \<^verbatim>\<open>position\<close> before the call and \<^verbatim>\<open>position\<close> after \<^verbatim>\<open>skipWhitespace\<close> (the
  whitespace skipped), and those between \<^verbatim>\<open>position\<close> before and after the whole call
  (the characters consumed). Beyond the end of the input there are no characters.
\<close>

definition skipped :: "Lexer \<Rightarrow> string" where
  "skipped l =
     take (unat (position (skipWhitespace l) - position l)) (drop (unat (position l)) (input l))"

definition consumed :: "Lexer \<Rightarrow> Lexer \<Rightarrow> string" where
  "consumed l l' = take (unat (position l' - position l)) (drop (unat (position l)) (input l))"

definition eof_token :: Token where
  "eof_token = \<lparr>type = END_OF_FILE, literal = []\<rparr>"

lemma classify_eof_iff:
  "type (classify xs) = END_OF_FILE \<longleftrightarrow> xs = [] \<or> hd xs = CHR 0x00"
  by (cases xs) (simp_all add: classify_def)

lemma classify_eof: "type (classify xs) = END_OF_FILE \<Longrightarrow> classify xs = eof_token"
  by (cases xs) (simp_all add: classify_def eof_token_def split: if_splits)

lemma classify_literal_nonempty:
  "type (classify xs) \<noteq> END_OF_FILE \<Longrightarrow> literal (classify xs) \<noteq> []"
  by (cases xs) (auto simp: classify_def split: if_splits)

lemma classify_prefix:
  "type (classify xs) \<noteq> END_OF_FILE \<Longrightarrow>
     take (length (literal (classify xs))) xs = literal (classify xs)"
  by (cases xs) (auto simp: classify_def takeWhile_eq_take [symmetric] split: if_splits)

lemma classify_literal_length:
  "type (classify xs) \<noteq> END_OF_FILE \<Longrightarrow> length (literal (classify xs)) \<le> length xs"
  using arg_cong [OF classify_prefix [of xs], of length] by simp

lemma advance_pos: "0 < advance (classify xs)"
  using classify_literal_nonempty [of xs] by (simp add: advance_def)

lemma advance_le: "advance (classify xs) \<le> Suc (length xs)"
  using classify_literal_length [of xs]
  by (cases "type (classify xs) = END_OF_FILE") (simp_all add: advance_def)

lemma nextToken_cursor_ex:
  "\<exists>tok q. nextToken (cursor inp p) = Inr (tok, cursor inp q) \<and> p < q \<and>
           q \<le> Suc (p + length (rest inp p))"
proof -
  let ?k = "length (takeWhile isWhitespace (rest inp p))"
  let ?r = "p + ?k"
  let ?tok = "classify (rest inp ?r)"
  have "nextToken (cursor inp p) = Inr (?tok, cursor inp (?r + advance ?tok))"
    by (rule nextToken_cursor)
  moreover have "p < ?r + advance ?tok"
    using advance_pos [of "rest inp ?r"] by simp
  moreover have "?r + advance ?tok \<le> Suc (p + length (rest inp p))"
  proof -
    have k: "?k \<le> length (rest inp p)" by (rule length_takeWhile_le)
    then have "rest inp ?r = drop ?k (rest inp p)" by (rule rest_add)
    then have "length (rest inp ?r) = length (rest inp p) - ?k" by simp
    with advance_le [of "rest inp ?r"] k show ?thesis by arith
  qed
  ultimately show ?thesis by blast
qed

lemma calls_cursor:
  "\<exists>toks q. calls (cursor inp p) n = Inr (toks, cursor inp q) \<and> p + n \<le> q"
proof (induction n arbitrary: p)
  case 0
  show ?case by (intro exI [of _ "[]"] exI [of _ p]) simp
next
  case (Suc n)
  obtain tok q where q: "nextToken (cursor inp p) = Inr (tok, cursor inp q)" "p < q"
    using nextToken_cursor_ex by blast
  obtain toks q' where q': "calls (cursor inp q) n = Inr (toks, cursor inp q')" "q + n \<le> q'"
    using Suc.IH by blast
  from q q' have "calls (cursor inp p) (Suc n) = Inr (tok # toks, cursor inp q')"
    by simp
  moreover from q q' have "p + Suc n \<le> q'" by simp
  ultimately show ?case by blast
qed

lemma calls_add:
  "calls l (n + m) =
     (case calls l n of
        Inl e \<Rightarrow> Inl e
      | Inr (toks, l') \<Rightarrow>
          (case calls l' m of
             Inl e \<Rightarrow> Inl e
           | Inr (toks', l'') \<Rightarrow> Inr (toks @ toks', l'')))"
  by (induction n arbitrary: l) (auto split: sum.splits)

lemma nextToken_at_end:
  assumes "rest inp p = []"
  shows "nextToken (cursor inp p) = Inr (eof_token, cursor inp (Suc p))"
  using assms nextToken_cursor [of inp p]
  by (simp add: classify_def advance_def eof_token_def)

lemma calls_at_end:
  assumes "\<And>j. j < k \<Longrightarrow> rest inp (p + j) = []"
  shows "calls (cursor inp p) k = Inr (replicate k eof_token, cursor inp (p + k))"
  using assms
proof (induction k arbitrary: p)
  case 0
  show ?case by simp
next
  case (Suc k)
  from Suc.prems [of 0] have "rest inp p = []" by simp
  then have "nextToken (cursor inp p) = Inr (eof_token, cursor inp (Suc p))"
    by (rule nextToken_at_end)
  moreover have "calls (cursor inp (Suc p)) k = Inr (replicate k eof_token, cursor inp (Suc p + k))"
  proof (rule Suc.IH)
    fix j assume "j < k"
    then show "rest inp (Suc p + j) = []" using Suc.prems [of "Suc j"] by simp
  qed
  ultimately show ?case by simp
qed

lemma reachable_cursor:
  assumes "calls (new_Lexer inp) n = Inr (toks, l)"
  obtains q where "l = cursor inp q"
  using assms calls_cursor [of inp 0 n] by (auto simp: new_Lexer_cursor)

lemma unat_of_nat_small: "p < 2 ^ 64 \<Longrightarrow> unat (of_nat p :: size_t) = p"
  by (simp add: unat_of_nat)

lemma of_nat_less_small:
  assumes "a < b" and "b < 2 ^ 64"
  shows "(of_nat a :: size_t) < of_nat b"
  using assms by (simp add: word_less_nat_alt unat_of_nat_small)

lemma of_nat_le_small:
  assumes "a \<le> b" and "b < 2 ^ 64"
  shows "(of_nat a :: size_t) \<le> of_nat b"
  using assms by (simp add: word_le_nat_alt unat_of_nat_small)

lemma length_visible_le: "length (visible inp) \<le> length inp"
  by (simp add: visible_def)

lemma set_rest: "set (rest inp p) \<subseteq> set inp"
proof -
  have "set (rest inp p) \<subseteq> set (visible inp)"
    unfolding rest_def by (rule set_drop_subset)
  also have "\<dots> \<subseteq> set inp"
    unfolding visible_def by (rule set_take_subset)
  finally show ?thesis .
qed

lemma rest_nonempty_less:
  assumes "rest inp p \<noteq> []"
  shows "(of_nat p :: size_t) < of_nat (length inp)"
proof -
  from assms have "unat (of_nat p :: size_t) < length (visible inp)"
    by (simp add: rest_def)
  then show ?thesis by (simp add: length_visible word_less_nat_alt)
qed

lemma length_rest_small:
  assumes "p < 2 ^ 64"
  shows "length (rest inp p) = length (visible inp) - p"
  using assms by (simp add: rest_def unat_of_nat_small)

lemma rest_beyond:
  assumes "length inp \<le> p" and "p < 2 ^ 64"
  shows "rest inp p = []"
  using assms length_rest_small [of p inp] length_visible_le [of inp] by simp

text \<open>
  How far the counters get: a call moves the cursor at most one beyond the end of the input,
  so \<open>n\<close> calls from the constructor leave it at most at the length of the input plus
  \<open>n\<close>. As long as that stays below \<open>2 ^ 64\<close> no counter has wrapped.
\<close>

lemma step_bound:
  assumes "p < 2 ^ 64"
  shows "\<exists>tok q. nextToken (cursor inp p) = Inr (tok, cursor inp q) \<and> p < q \<and>
                 q \<le> Suc (max p (length inp))"
proof -
  obtain tok q where s: "nextToken (cursor inp p) = Inr (tok, cursor inp q)" "p < q"
    "q \<le> Suc (p + length (rest inp p))"
    using nextToken_cursor_ex [of inp p] by blast
  have "p + length (rest inp p) \<le> max p (length inp)"
    using length_rest_small [OF assms, of inp] length_visible_le [of inp] by arith
  with s show ?thesis by (intro exI [of _ tok] exI [of _ q]) simp
qed

lemma calls_cursor_bound:
  assumes "max p (length inp) + n < 2 ^ 64"
  shows "\<exists>toks q. calls (cursor inp p) n = Inr (toks, cursor inp q) \<and> p + n \<le> q \<and>
                  q \<le> max p (length inp) + n"
  using assms
proof (induction n arbitrary: p)
  case 0
  show ?case by (intro exI [of _ "[]"] exI [of _ p]) simp
next
  case (Suc n)
  from Suc.prems have "p < 2 ^ 64" by simp
  then obtain tok p' where s: "nextToken (cursor inp p) = Inr (tok, cursor inp p')"
      "p < p'" "p' \<le> Suc (max p (length inp))"
    using step_bound [of p inp] by blast
  from s(3) Suc.prems have "max p' (length inp) + n < 2 ^ 64" by simp
  then obtain toks q where c: "calls (cursor inp p') n = Inr (toks, cursor inp q)"
      "p' + n \<le> q" "q \<le> max p' (length inp) + n"
    using Suc.IH [of p'] by blast
  from s c have "calls (cursor inp p) (Suc n) = Inr (tok # toks, cursor inp q)"
    by simp
  moreover from s c have "p + Suc n \<le> q" by simp
  moreover from s c have "q \<le> max p (length inp) + Suc n" by simp
  ultimately show ?case by blast
qed

lemma reachable_bounded:
  assumes "length inp + n < 2 ^ 64" and "calls (new_Lexer inp) n = Inr (toks, l)"
  obtains q where "l = cursor inp q" and "n \<le> q" and "q \<le> length inp + n"
proof -
  from assms(1) have "max 0 (length inp) + n < 2 ^ 64" by simp
  then obtain toks' q where "calls (cursor inp 0) n = Inr (toks', cursor inp q)"
      "0 + n \<le> q" "q \<le> max 0 (length inp) + n"
    using calls_cursor_bound [of 0 inp n] by blast
  with assms(2) have "l = cursor inp q" "n \<le> q" "q \<le> length inp + n"
    by (simp_all add: new_Lexer_cursor)
  then show ?thesis by (rule that)
qed

lemma nextToken_reachable:
  assumes "calls (new_Lexer inp) n = Inr (toks, l)" and "nextToken l = Inr (tok, l')"
  obtains r where "skipWhitespace l = cursor inp r"
    and "tok = classify (rest inp r)" and "l' = cursor inp (r + advance tok)"
proof -
  obtain p where l: "l = cursor inp p" using assms(1) by (rule reachable_cursor)
  define r where "r = p + length (takeWhile isWhitespace (rest inp p))"
  have "skipWhitespace l = cursor inp r"
    unfolding l r_def by (rule skipWhitespace_cursor)
  moreover have "nextToken (cursor inp p) =
      Inr (classify (rest inp r), cursor inp (r + advance (classify (rest inp r))))"
    unfolding r_def by (rule nextToken_cursor)
  with assms(2) have "tok = classify (rest inp r)" and "l' = cursor inp (r + advance tok)"
    unfolding l by auto
  ultimately show ?thesis by (rule that)
qed

lemma classify_eof_nul_free:
  assumes "CHR 0x00 \<notin> set inp" and "type (classify (rest inp r)) = END_OF_FILE"
  shows "rest inp r = []"
proof (rule ccontr)
  assume ne: "rest inp r \<noteq> []"
  with assms(2) have "hd (rest inp r) = CHR 0x00" by (simp add: classify_eof_iff)
  with ne have "CHR 0x00 \<in> set (rest inp r)" by (metis hd_in_set)
  with set_rest [of inp r] assms(1) show False by blast
qed

lemma classify_shape:
  fixes xs
  defines "tok \<equiv> classify xs"
  shows "(literal tok = [] \<longleftrightarrow> type tok = END_OF_FILE) \<and>
         (type tok \<in> {NUMBER, IDENTIFIER, LET} \<longrightarrow> 1 \<le> length (literal tok)) \<and>
         (type tok = EQUALS \<longrightarrow> literal tok = ''='') \<and>
         (type tok = PLUS \<longrightarrow> literal tok = ''+'') \<and>
         (type tok = MINUS \<longrightarrow> literal tok = ''-'') \<and>
         (type tok = STAR \<longrightarrow> literal tok = ''*'') \<and>
         (type tok = SLASH \<longrightarrow> literal tok = ''/'') \<and>
         (type tok = OPEN_PAREN \<longrightarrow> literal tok = ''('') \<and>
         (type tok = CLOSE_PAREN \<longrightarrow> literal tok = '')'') \<and>
         (type tok = ILLEGAL \<longrightarrow> length (literal tok) = 1)"
  unfolding tok_def
  by (cases xs) (simp_all add: classify_def Suc_le_eq)

lemma classify_ident:
  assumes "type (classify xs) = LET \<or> type (classify xs) = IDENTIFIER"
  shows "literal (classify xs) = takeWhile isIdentChar xs \<and>
         (type (classify xs) = LET \<longleftrightarrow> literal (classify xs) = ''let'')"
  using assms by (cases xs) (auto simp: classify_def split: if_splits)

lemma diff_of_nat: "p \<le> q \<Longrightarrow> (of_nat q :: size_t) - of_nat p = of_nat (q - p)"
  by simp

lemma skipped_cursor:
  assumes "length inp < 2 ^ 64" and "p \<le> length inp"
  shows "skipped (cursor inp p) = takeWhile isWhitespace (drop p inp)"
proof -
  let ?ws = "takeWhile isWhitespace (drop p inp)"
  from assms have p: "p < 2 ^ 64" by simp
  have r: "rest inp p = drop p inp" using assms(1) p by (rule rest_small)
  have "length ?ws \<le> length inp" using length_takeWhile_le [of isWhitespace "drop p inp"] by simp
  with assms(1) have k: "length ?ws < 2 ^ 64" by simp
  have "position (skipWhitespace (cursor inp p)) - position (cursor inp p) =
          (of_nat (length ?ws) :: size_t)"
    by (simp add: skipWhitespace_cursor r)
  then show ?thesis
    using p k by (simp add: skipped_def unat_of_nat_small takeWhile_eq_take [symmetric])
qed

lemma consumed_cursor:
  assumes "p \<le> q" and "q - p < 2 ^ 64" and "p < 2 ^ 64"
  shows "consumed (cursor inp p) (cursor inp q) = take (q - p) (drop p inp)"
proof -
  have d: "(of_nat q :: size_t) - of_nat p = of_nat (q - p)"
    using assms(1) by (rule diff_of_nat)
  have u: "unat (of_nat (q - p) :: size_t) = q - p"
    using assms(2) by (rule unat_of_nat_small)
  have v: "unat (of_nat p :: size_t) = p"
    using assms(3) by (rule unat_of_nat_small)
  show ?thesis unfolding consumed_def cursor_sel d u v by (rule refl)
qed

lemma drop_skipped:
  "drop (p + length (takeWhile isWhitespace (drop p inp))) inp =
     dropWhile isWhitespace (drop p inp)"
  by (simp add: dropWhile_eq_drop add.commute)

text \<open>
  Over a trace: the skipped whitespace and the token texts put back together in order, the
  number of characters consumed by all the calls, and whether every skipped character is
  whitespace.
\<close>

definition reconstruct :: "(Lexer \<times> Token \<times> Lexer) list \<Rightarrow> string" where
  "reconstruct es = concat (map (\<lambda>(l, tok, l'). skipped l @ literal tok) es)"

definition total_consumed :: "(Lexer \<times> Token \<times> Lexer) list \<Rightarrow> nat" where
  "total_consumed es = sum_list (map (\<lambda>(l, tok, l'). length (consumed l l')) es)"

definition whitespace_only :: "(Lexer \<times> Token \<times> Lexer) list \<Rightarrow> bool" where
  "whitespace_only es = list_all (\<lambda>(l, tok, l'). list_all isWhitespace (skipped l)) es"

lemma trace_cursor:
  assumes nul: "CHR 0x00 \<notin> set inp" and len: "length inp < SIZE_MAX"
    and ple: "p \<le> length inp"
  shows "\<exists>es. trace (cursor inp p) = Inr es \<and> reconstruct es = drop p inp \<and>
              total_consumed es = length inp - p \<and> whitespace_only es"
  using ple
proof (induction "length inp - p" arbitrary: p rule: less_induct)
  case less
  from len have len64: "length inp < 2 ^ 64" and len1: "Suc (length inp) < 2 ^ 64"
    by (simp_all add: SIZE_MAX_def)
  from less.prems len64 have p64: "p < 2 ^ 64" by simp
  define ws where "ws = takeWhile isWhitespace (drop p inp)"
  define r where "r = p + length ws"
  define tok where "tok = classify (drop r inp)"
  define q where "q = r + advance tok"
  have rp: "rest inp p = drop p inp" using len64 p64 by (rule rest_small)
  have "length ws \<le> length (drop p inp)" unfolding ws_def by (rule length_takeWhile_le)
  with less.prems have rle: "r \<le> length inp" by (simp add: r_def)
  with len64 have r64: "r < 2 ^ 64" by simp
  have rr: "rest inp r = drop r inp" using len64 r64 by (rule rest_small)
  have "nextToken (cursor inp p) =
      Inr (classify (rest inp r), cursor inp (r + advance (classify (rest inp r))))"
    using nextToken_cursor [of inp p] unfolding r_def ws_def rp .
  then have step: "nextToken (cursor inp p) = Inr (tok, cursor inp q)"
    by (simp add: q_def tok_def rr)
  have sk: "skipped (cursor inp p) = ws"
    unfolding ws_def using len64 less.prems by (rule skipped_cursor)
  have split: "drop p inp = ws @ drop r inp"
    unfolding r_def ws_def by (simp add: drop_skipped)
  have wsp: "list_all isWhitespace ws"
    unfolding ws_def list_all_iff by (auto dest: set_takeWhileD)
  show ?case
  proof (cases "type tok = END_OF_FILE")
    case True
    then have "rest inp r = []"
      unfolding tok_def rr [symmetric] by (rule classify_eof_nul_free [OF nul])
    then have e: "drop r inp = []" by (simp add: rr)
    with rle have req: "r = length inp" by simp
    have lit: "literal tok = []"
      using True classify_eof [of "drop r inp"] by (simp add: tok_def eof_token_def)
    have q: "q = Suc r" using True by (simp add: q_def advance_def)
    have tr: "trace (cursor inp p) = Inr [(cursor inp p, tok, cursor inp q)]"
      using step True by (subst trace.simps) simp
    have con: "consumed (cursor inp p) (cursor inp q) = take (q - p) (drop p inp)"
      using less.prems len1 p64 by (intro consumed_cursor) (simp_all add: q req)
    have "reconstruct [(cursor inp p, tok, cursor inp q)] = drop p inp"
      by (simp add: reconstruct_def sk lit split e)
    moreover have "total_consumed [(cursor inp p, tok, cursor inp q)] = length inp - p"
    proof -
      have "length (take (q - p) (drop p inp)) = length inp - p"
        using less.prems by (simp add: q req)
      then have "length (consumed (cursor inp p) (cursor inp q)) = length inp - p"
        by (simp only: con)
      then show ?thesis by (simp add: total_consumed_def)
    qed
    moreover have "whitespace_only [(cursor inp p, tok, cursor inp q)]"
      by (simp add: whitespace_only_def sk wsp)
    ultimately show ?thesis using tr by blast
  next
    case False
    have adv: "advance tok = length (literal tok)" using False by (simp add: advance_def)
    have pre: "take (length (literal tok)) (drop r inp) = literal tok"
      using False unfolding tok_def by (rule classify_prefix)
    have ne: "literal tok \<noteq> []"
      using False unfolding tok_def by (rule classify_literal_nonempty)
    have l1: "length (literal tok) \<le> length inp - r"
      using arg_cong [OF pre, of length] by simp
    have l2: "0 < length (literal tok)" using ne by simp
    have qle: "q \<le> length inp"
      using l1 l2 unfolding q_def adv by arith
    have pq: "p < q" using l2 unfolding q_def adv r_def by arith
    have "drop r inp = take (length (literal tok)) (drop r inp) @
            drop (length (literal tok)) (drop r inp)"
      by (rule append_take_drop_id [symmetric])
    also have "drop (length (literal tok)) (drop r inp) = drop q inp"
      by (simp add: q_def adv add.commute)
    finally have rest: "drop r inp = literal tok @ drop q inp"
      by (simp only: pre)
    from pq qle have "length inp - q < length inp - p" by simp
    then obtain es where es: "trace (cursor inp q) = Inr es" "reconstruct es = drop q inp"
        "total_consumed es = length inp - q" "whitespace_only es"
      using less.hyps [OF _ qle] by blast
    let ?e = "(cursor inp p, tok, cursor inp q)"
    have con: "consumed (cursor inp p) (cursor inp q) = take (q - p) (drop p inp)"
      using pq qle len64 p64 by (intro consumed_cursor) simp_all
    have tr: "trace (cursor inp p) = Inr (?e # es)"
      using step False es(1) by (subst trace.simps) simp
    have "reconstruct (?e # es) = drop p inp"
      using es(2) by (simp add: reconstruct_def sk split rest)
    moreover have "total_consumed (?e # es) = length inp - p"
      using es(3) pq qle by (simp add: total_consumed_def con)
    moreover have "whitespace_only (?e # es)"
      using es(4) by (simp add: whitespace_only_def sk wsp)
    ultimately show ?thesis using tr by blast
  qed
qed

definition roundtrip :: "string \<Rightarrow> error + string" where
  "roundtrip inp =
     (case trace (new_Lexer inp) of Inl e \<Rightarrow> Inl e | Inr es \<Rightarrow> Inr (reconstruct es))"

definition chars_consumed :: "string \<Rightarrow> error + nat" where
  "chars_consumed inp =
     (case trace (new_Lexer inp) of Inl e \<Rightarrow> Inl e | Inr es \<Rightarrow> Inr (total_consumed es))"

definition skips_whitespace_only :: "string \<Rightarrow> bool" where
  "skips_whitespace_only inp =
     (case trace (new_Lexer inp) of Inl e \<Rightarrow> False | Inr es \<Rightarrow> whitespace_only es)"

section \<open>The wrap-around of the counters\<close>

text \<open>
  Every call that returns END_OF_FILE increments \<^verbatim>\<open>readPosition\<close> (line 156), so calls
  repeated after the end of the input make the counters wrap: on the input \<^verbatim>\<open>a\<close> the
  call number \<open>2 ^ 64\<close> leaves the lexer in the state the constructor made, and the next
  call returns IDENTIFIER "a" again.
\<close>

lemma calls_a:
  assumes "k < 2 ^ 64"
  shows "calls (new_Lexer ''a'') (Suc k) =
           Inr (\<lparr>type = IDENTIFIER, literal = ''a''\<rparr> # replicate k eof_token,
                cursor ''a'' (Suc k))"
proof -
  have r0: "rest ''a'' 0 = ''a''" by (simp add: rest_small)
  have r1: "rest ''a'' 1 = []" by (simp add: rest_small)
  have "nextToken (cursor ''a'' 0) =
          Inr (classify (rest ''a'' 0), cursor ''a'' (0 + advance (classify (rest ''a'' 0))))"
    using nextToken_at [of "''a''" 0] by (simp add: r0 isWhitespace_def)
  moreover have "classify ''a'' = \<lparr>type = IDENTIFIER, literal = ''a''\<rparr>"
    by (simp add: classify_def isdigit_def isIdentChar_def isalpha_def)
  ultimately have s: "nextToken (cursor ''a'' 0) =
      Inr (\<lparr>type = IDENTIFIER, literal = ''a''\<rparr>, cursor ''a'' 1)"
    by (simp add: r0 advance_def)
  have "calls (cursor ''a'' 1) k = Inr (replicate k eof_token, cursor ''a'' (1 + k))"
  proof (rule calls_at_end)
    fix j assume "j < k"
    with assms show "rest ''a'' (1 + j) = []"
      by (intro rest_beyond) simp_all
  qed
  with s show ?thesis by (simp add: new_Lexer_cursor)
qed

lemma wrap_around_rescans:
  "calls (new_Lexer ''a'') 18446744073709551617 =
     Inr (\<lparr>type = IDENTIFIER, literal = ''a''\<rparr> # replicate 18446744073709551615 eof_token @
            [\<lparr>type = IDENTIFIER, literal = ''a''\<rparr>],
          \<lparr>input = ''a'', position = 1, readPosition = 2, ch = CHR 0x00\<rparr>)"
proof -
  have "cursor ''a'' (Suc 18446744073709551615) = cursor ''a'' 0"
    by (subst cursor_mod) simp
  then have c1: "calls (new_Lexer ''a'') 18446744073709551616 =
      Inr (\<lparr>type = IDENTIFIER, literal = ''a''\<rparr> # replicate 18446744073709551615 eof_token,
           new_Lexer ''a'')"
    using calls_a [of 18446744073709551615] by (simp add: new_Lexer_cursor)
  have c2: "calls (new_Lexer ''a'') 1 =
      Inr ([\<lparr>type = IDENTIFIER, literal = ''a''\<rparr>],
           \<lparr>input = ''a'', position = 1, readPosition = 2, ch = CHR 0x00\<rparr>)"
    by code_simp
  have "calls (new_Lexer ''a'') (18446744073709551616 + 1) =
      Inr ((\<lparr>type = IDENTIFIER, literal = ''a''\<rparr> # replicate 18446744073709551615 eof_token) @
             [\<lparr>type = IDENTIFIER, literal = ''a''\<rparr>],
           \<lparr>input = ''a'', position = 1, readPosition = 2, ch = CHR 0x00\<rparr>)"
    unfolding calls_add [of "new_Lexer ''a''" 18446744073709551616 1] c1 sum.case prod.case c2
    by simp
  then show ?thesis by simp
qed

section \<open>The claims\<close>

text \<open>
  Claim C1. Scanning the input \<^verbatim>\<open>let x = 42 + (15 - 3)\<close> by calling \<^verbatim>\<open>nextToken\<close>
  repeatedly yields, in this order, LET "let", IDENTIFIER "x", EQUALS "=", NUMBER "42",
  PLUS "+", OPEN_PAREN "(", NUMBER "15", MINUS "-", NUMBER "3", CLOSE_PAREN ")" and then
  END_OF_FILE with the empty text; no call fails.
\<close>

theorem scan_let_example:
  "tokens ''let x = 42 + (15 - 3)'' =
     Inr [\<lparr>type = LET, literal = ''let''\<rparr>,
          \<lparr>type = IDENTIFIER, literal = ''x''\<rparr>,
          \<lparr>type = EQUALS, literal = ''=''\<rparr>,
          \<lparr>type = NUMBER, literal = ''42''\<rparr>,
          \<lparr>type = PLUS, literal = ''+''\<rparr>,
          \<lparr>type = OPEN_PAREN, literal = ''(''\<rparr>,
          \<lparr>type = NUMBER, literal = ''15''\<rparr>,
          \<lparr>type = MINUS, literal = ''-''\<rparr>,
          \<lparr>type = NUMBER, literal = ''3''\<rparr>,
          \<lparr>type = CLOSE_PAREN, literal = '')''\<rparr>,
          \<lparr>type = END_OF_FILE, literal = []\<rparr>]"
  by code_simp

text \<open>
  Claim C2 (as stated, for every input string: the skipped whitespace and the token texts
  up to the first END_OF_FILE, put together in order, give back the input). The claim fails
  on an input that holds a NUL byte: \<^verbatim>\<open>nextToken\<close> reads the byte as the end-of-input
  mark, returns END_OF_FILE with the empty text, and the loop stops there. On the three
  bytes \<^verbatim>\<open>a\<close>, NUL, \<^verbatim>\<open>b\<close> the reconstruction is \<^verbatim>\<open>a\<close>.
\<close>

theorem roundtrip_counterexample:
  "roundtrip [CHR ''a'', CHR 0x00, CHR ''b''] = Inr ''a'' \<and>
   ''a'' \<noteq> [CHR ''a'', CHR 0x00, CHR ''b'']"
  by code_simp

text \<open>
  Claim C2, amended: for every input string that holds no NUL byte (and is shorter than
  \<open>SIZE_MAX\<close>, as every \<^verbatim>\<open>std::string\<close> is), the loop ends without an error, the
  whitespace skipped before each token and the token texts, put together in order up to
  the first END_OF_FILE, are the input string, and every skipped character is one of
  space, tab, newline, carriage return.
\<close>

theorem roundtrip_nul_free:
  assumes "CHR 0x00 \<notin> set inp" and "length inp < SIZE_MAX"
  shows "roundtrip inp = Inr inp \<and> skips_whitespace_only inp"
  using trace_cursor [OF assms, of 0]
  by (auto simp: roundtrip_def skips_whitespace_only_def new_Lexer_cursor)

theorem roundtrip_nul_free_witness:
  "CHR 0x00 \<notin> set '' let  x1 = 4@ '' \<and> length '' let  x1 = 4@ '' < SIZE_MAX \<and>
   roundtrip '' let  x1 = 4@ '' = Inr '' let  x1 = 4@ '' \<and>
   skips_whitespace_only '' let  x1 = 4@ ''"
proof -
  have h1: "CHR 0x00 \<notin> set '' let  x1 = 4@ ''" by simp
  have h2: "length '' let  x1 = 4@ '' < SIZE_MAX" by (simp add: SIZE_MAX_def)
  from roundtrip_nul_free [OF h1 h2] h1 h2 show ?thesis by blast
qed

text \<open>
  Claim C3 (as stated, for every input string: the number of characters consumed by all
  calls up to and including the first one that returns END_OF_FILE is the length of the
  input). The claim fails on an input that holds a NUL byte: on the three bytes
  \<^verbatim>\<open>a\<close>, NUL, \<^verbatim>\<open>b\<close> the second call returns END_OF_FILE, and the two calls have
  consumed two characters.
\<close>

theorem chars_consumed_counterexample:
  "chars_consumed [CHR ''a'', CHR 0x00, CHR ''b''] = Inr 2 \<and>
   length [CHR ''a'', CHR 0x00, CHR ''b''] = 3"
  by code_simp

text \<open>
  Claim C3, amended: for every input string that holds no NUL byte (and is shorter than
  \<open>SIZE_MAX\<close>, as every \<^verbatim>\<open>std::string\<close> is), the number of characters of the input
  that the calls up to and including the first END_OF_FILE move the cursor over is the
  length of the input.
\<close>

theorem chars_consumed_nul_free:
  assumes "CHR 0x00 \<notin> set inp" and "length inp < SIZE_MAX"
  shows "chars_consumed inp = Inr (length inp)"
  using trace_cursor [OF assms, of 0]
  by (auto simp: chars_consumed_def new_Lexer_cursor)

theorem chars_consumed_nul_free_witness:
  "CHR 0x00 \<notin> set '' let  x1 = 4@ '' \<and> length '' let  x1 = 4@ '' < SIZE_MAX \<and>
   chars_consumed '' let  x1 = 4@ '' = Inr 14"
proof -
  have h1: "CHR 0x00 \<notin> set '' let  x1 = 4@ ''" by simp
  have h2: "length '' let  x1 = 4@ '' < SIZE_MAX" by (simp add: SIZE_MAX_def)
  from chars_consumed_nul_free [OF h1 h2] h1 h2 show ?thesis by simp
qed

text \<open>
  Claim C4 (as stated, for every input string: once \<^verbatim>\<open>nextToken\<close> has returned
  END_OF_FILE, every later call returns END_OF_FILE with the empty text and does not fail).
  The claim fails on an input that holds a NUL byte: on the two bytes NUL, \<^verbatim>\<open>a\<close> the
  first call returns END_OF_FILE and the second returns IDENTIFIER "a".
\<close>

theorem eof_repeats_counterexample:
  "calls (new_Lexer [CHR 0x00, CHR ''a'']) 2 =
     Inr ([\<lparr>type = END_OF_FILE, literal = []\<rparr>, \<lparr>type = IDENTIFIER, literal = ''a''\<rparr>],
          \<lparr>input = [CHR 0x00, CHR ''a''], position = 2, readPosition = 3, ch = CHR 0x00\<rparr>)"
  by code_simp

text \<open>
  Claim C4, amended: for every input string that holds no NUL byte, when the call that
  follows \<open>n\<close> calls from the constructor returns END_OF_FILE (its text is then empty),
  the next \<open>k\<close> calls succeed and each returns END_OF_FILE with the empty text, as long
  as the length of the input plus the number \<open>n + 1 + k\<close> of all these calls is below
  \<open>SIZE_MAX\<close>, so that no counter has wrapped (lemma \<open>wrap_around_rescans\<close> shows what
  happens beyond).
\<close>

theorem eof_repeats_nul_free:
  assumes nul: "CHR 0x00 \<notin> set inp"
    and bound: "length inp + n + k + 1 < SIZE_MAX"
    and reach: "calls (new_Lexer inp) n = Inr (toks, l)"
    and call: "nextToken l = Inr (tok, l')"
    and eof: "type tok = END_OF_FILE"
  shows "tok = eof_token \<and> (\<exists>l''. calls l' k = Inr (replicate k eof_token, l''))"
proof -
  from bound have b: "length inp + n + k + 1 < 2 ^ 64" by (simp add: SIZE_MAX_def)
  then have "length inp + n < 2 ^ 64" by simp
  then obtain p where l: "l = cursor inp p" and p: "p \<le> length inp + n"
    using reach by (rule reachable_bounded)
  from p b have p64: "p < 2 ^ 64" by simp
  define r where "r = p + length (takeWhile isWhitespace (rest inp p))"
  have "length (takeWhile isWhitespace (rest inp p)) \<le> length (rest inp p)"
    by (rule length_takeWhile_le)
  also have "\<dots> \<le> length inp - p"
    using length_rest_small [OF p64, of inp] length_visible_le [of inp] by simp
  finally have rle: "r \<le> length inp + n" using p unfolding r_def by arith
  with b have r64: "r < 2 ^ 64" by simp
  have "nextToken (cursor inp p) =
      Inr (classify (rest inp r), cursor inp (r + advance (classify (rest inp r))))"
    unfolding r_def by (rule nextToken_cursor)
  with call have tok: "tok = classify (rest inp r)" and l': "l' = cursor inp (r + advance tok)"
    unfolding l by auto
  have e: "rest inp r = []"
    using eof unfolding tok by (rule classify_eof_nul_free [OF nul])
  then have "length (visible inp) \<le> r"
    using length_rest_small [OF r64, of inp] by simp
  moreover have "length inp < 2 ^ 64" using b by simp
  ultimately have lr: "length inp \<le> r" by (simp add: visible_id)
  have adv: "advance tok = 1" using eof by (simp add: advance_def)
  have "calls (cursor inp (Suc r)) k = Inr (replicate k eof_token, cursor inp (Suc r + k))"
  proof (rule calls_at_end)
    fix j assume "j < k"
    with rle b lr show "rest inp (Suc r + j) = []"
      by (intro rest_beyond) simp_all
  qed
  then have "calls l' k = Inr (replicate k eof_token, cursor inp (Suc r + k))"
    by (simp add: l' adv)
  moreover have "tok = eof_token" using eof unfolding tok by (rule classify_eof)
  ultimately show ?thesis by blast
qed

theorem eof_repeats_nul_free_witness:
  "CHR 0x00 \<notin> set ''a'' \<and> length ''a'' + 1 + 3 + 1 < SIZE_MAX \<and>
   calls (new_Lexer ''a'') 1 =
     Inr ([\<lparr>type = IDENTIFIER, literal = ''a''\<rparr>],
          \<lparr>input = ''a'', position = 1, readPosition = 2, ch = CHR 0x00\<rparr>) \<and>
   nextToken \<lparr>input = ''a'', position = 1, readPosition = 2, ch = CHR 0x00\<rparr> =
     Inr (eof_token, \<lparr>input = ''a'', position = 2, readPosition = 3, ch = CHR 0x00\<rparr>) \<and>
   type eof_token = END_OF_FILE \<and>
   (\<exists>l''. calls \<lparr>input = ''a'', position = 2, readPosition = 3, ch = CHR 0x00\<rparr> 3 =
            Inr (replicate 3 eof_token, l''))"
proof -
  have h0: "CHR 0x00 \<notin> set ''a''" by simp
  have hb: "length ''a'' + 1 + 3 + 1 < SIZE_MAX" by (simp add: SIZE_MAX_def)
  have h1: "calls (new_Lexer ''a'') 1 =
     Inr ([\<lparr>type = IDENTIFIER, literal = ''a''\<rparr>],
          \<lparr>input = ''a'', position = 1, readPosition = 2, ch = CHR 0x00\<rparr>)"
    by code_simp
  have h2: "nextToken \<lparr>input = ''a'', position = 1, readPosition = 2, ch = CHR 0x00\<rparr> =
     Inr (eof_token, \<lparr>input = ''a'', position = 2, readPosition = 3, ch = CHR 0x00\<rparr>)"
    by code_simp
  have h3: "type eof_token = END_OF_FILE" by (simp add: eof_token_def)
  from eof_repeats_nul_free [OF h0 hb h1 h2 h3] h0 hb h1 h2 h3 show ?thesis by blast
qed

text \<open>
  Claim C5 (as stated: the call that observes the end mark leaves \<^verbatim>\<open>position\<close> and
  \<^verbatim>\<open>readPosition\<close> unchanged, and so does every later call). The claim fails on the
  empty input: the constructor leaves the counters at 0 and 1, and the first call, which
  returns END_OF_FILE, runs the \<^verbatim>\<open>readChar\<close> of line 156 and leaves them at 1 and 2.
\<close>

theorem eof_cursor_counterexample:
  "new_Lexer [] = \<lparr>input = [], position = 0, readPosition = 1, ch = CHR 0x00\<rparr> \<and>
   nextToken (new_Lexer []) =
     Inr (\<lparr>type = END_OF_FILE, literal = []\<rparr>,
          \<lparr>input = [], position = 1, readPosition = 2, ch = CHR 0x00\<rparr>)"
  by code_simp

text \<open>
  Claim C5, amended: a call that returns END_OF_FILE returns it with the empty text and
  increments both \<^verbatim>\<open>position\<close> and \<^verbatim>\<open>readPosition\<close> by exactly one (as \<^verbatim>\<open>size_t\<close>
  values) from their values at the place where the end mark was observed (after the
  whitespace); when \<^verbatim>\<open>position\<close> is then beyond the end of the input, the next \<open>k\<close>
  calls again return END_OF_FILE with the empty text and move both counters by exactly
  \<open>k\<close>, as long as \<^verbatim>\<open>position\<close> plus \<open>k\<close> stays below \<open>SIZE_MAX\<close>.
\<close>

theorem eof_advances_cursor:
  assumes reach: "calls (new_Lexer inp) n = Inr (toks, l)"
    and call: "nextToken l = Inr (tok, l')"
    and eof: "type tok = END_OF_FILE"
  shows "tok = eof_token \<and>
         position l' = position (skipWhitespace l) + 1 \<and>
         readPosition l' = readPosition (skipWhitespace l) + 1 \<and>
         (length inp < unat (position l') \<and> unat (position l') + k < SIZE_MAX \<longrightarrow>
            (\<exists>l''. calls l' k = Inr (replicate k eof_token, l'') \<and>
                   unat (position l'') = unat (position l') + k \<and>
                   unat (readPosition l'') = unat (readPosition l') + k))"
proof -
  obtain r where sk: "skipWhitespace l = cursor inp r"
    and tok: "tok = classify (rest inp r)"
    and l': "l' = cursor inp (r + advance tok)"
    using reach call by (rule nextToken_reachable)
  have adv: "advance tok = 1" using eof by (simp add: advance_def)
  have t: "tok = eof_token" using eof unfolding tok by (rule classify_eof)
  have l'': "l' = cursor inp (Suc r)" by (simp add: l' adv)
  have p1: "position l' = position (skipWhitespace l) + 1"
    and p2: "readPosition l' = readPosition (skipWhitespace l) + 1"
    by (simp_all add: sk l'')
  have p3: "\<exists>l''. calls l' k = Inr (replicate k eof_token, l'') \<and>
                 unat (position l'') = unat (position l') + k \<and>
                 unat (readPosition l'') = unat (readPosition l') + k"
    if a: "length inp < unat (position l') \<and> unat (position l') + k < SIZE_MAX"
  proof -
    define q where "q = unat (position l')"
    from a have q1: "length inp < q" and q2: "q + k + 1 < 2 ^ 64"
      by (simp_all add: q_def SIZE_MAX_def)
    have lq: "l' = cursor inp q"
      unfolding l'' q_def by (simp add: cursor_mod [of inp "Suc r"])
    have "calls (cursor inp q) k = Inr (replicate k eof_token, cursor inp (q + k))"
    proof (rule calls_at_end)
      fix j assume "j < k"
      with q1 q2 show "rest inp (q + j) = []"
        by (intro rest_beyond) simp_all
    qed
    moreover have "unat (position (cursor inp (q + k))) = q + k"
      unfolding cursor_sel using q2 by (intro unat_of_nat_small) simp
    moreover have "unat (readPosition (cursor inp (q + k))) = Suc (q + k)"
      using q2 unat_of_nat_small [of "Suc (q + k)"] by simp
    moreover have "unat (position (cursor inp q)) = q"
      using q2 by (simp add: unat_of_nat_small)
    moreover have "unat (readPosition (cursor inp q)) = Suc q"
      using q2 unat_of_nat_small [of "Suc q"] by simp
    ultimately show ?thesis unfolding lq by simp
  qed
  from t p1 p2 p3 show ?thesis by blast
qed

theorem eof_advances_cursor_witness:
  "calls (new_Lexer ''a '') 1 =
     Inr ([\<lparr>type = IDENTIFIER, literal = ''a''\<rparr>],
          \<lparr>input = ''a '', position = 1, readPosition = 2, ch = CHR '' ''\<rparr>) \<and>
   nextToken \<lparr>input = ''a '', position = 1, readPosition = 2, ch = CHR '' ''\<rparr> =
     Inr (eof_token, \<lparr>input = ''a '', position = 3, readPosition = 4, ch = CHR 0x00\<rparr>) \<and>
   type eof_token = END_OF_FILE \<and>
   length ''a '' < unat (3 :: size_t) \<and> unat (3 :: size_t) + 5 < SIZE_MAX \<and>
   position (skipWhitespace \<lparr>input = ''a '', position = 1, readPosition = 2, ch = CHR '' ''\<rparr>) = 2 \<and>
   (\<exists>l''. calls \<lparr>input = ''a '', position = 3, readPosition = 4, ch = CHR 0x00\<rparr> 5 =
            Inr (replicate 5 eof_token, l'') \<and>
          unat (position l'') = 8 \<and> unat (readPosition l'') = 9)"
proof -
  have h1: "calls (new_Lexer ''a '') 1 =
     Inr ([\<lparr>type = IDENTIFIER, literal = ''a''\<rparr>],
          \<lparr>input = ''a '', position = 1, readPosition = 2, ch = CHR '' ''\<rparr>)"
    by code_simp
  have h2: "nextToken \<lparr>input = ''a '', position = 1, readPosition = 2, ch = CHR '' ''\<rparr> =
     Inr (eof_token, \<lparr>input = ''a '', position = 3, readPosition = 4, ch = CHR 0x00\<rparr>)"
    by code_simp
  have h3: "type eof_token = END_OF_FILE" by (simp add: eof_token_def)
  have h4: "unat (3 :: size_t) + 5 < SIZE_MAX" by (simp add: SIZE_MAX_def)
  from eof_advances_cursor [OF h1 h2 h3, of 5] h1 h2 h3 h4 show ?thesis by simp
qed

text \<open>
  Claim C6. In a state reached by calls from the constructor whose current character is a
  byte that is not whitespace, not 0, not one of the seven symbols, not a decimal digit and
  not a letter or underscore, \<^verbatim>\<open>nextToken\<close> returns an ILLEGAL token whose text is exactly
  that byte, and moves the cursor by exactly one character (without wrap-around).
\<close>

theorem illegal_byte:
  assumes reach: "calls (new_Lexer inp) n = Inr (toks, l)"
    and cur: "ch l = c"
    and nws: "\<not> isWhitespace c"
    and nz: "c \<noteq> CHR 0x00"
    and nsym: "c \<notin> set ''=+-*/()''"
    and ndig: "\<not> isdigit c"
    and nalp: "\<not> isalpha c"
    and nund: "c \<noteq> CHR ''_''"
  shows "nextToken l = Inr (\<lparr>type = ILLEGAL, literal = [c]\<rparr>, readChar l) \<and>
         unat (position (readChar l)) = unat (position l) + 1"
proof -
  obtain p where l: "l = cursor inp p" using reach by (rule reachable_cursor)
  have sk: "skipWhitespace l = l"
    using nws cur by (subst skipWhitespace.simps) simp
  have "nextToken l = Inr (\<lparr>type = ILLEGAL, literal = [c]\<rparr>, readChar l)"
    using nz nsym ndig nalp nund by (simp add: nextToken_def sk cur)
  moreover have "unat (position (readChar l)) = unat (position l) + 1"
  proof -
    from cur nz have "rest inp p \<noteq> []" by (auto simp: l)
    then have "(of_nat p :: size_t) < of_nat (length inp)" by (rule rest_nonempty_less)
    then have "unat ((of_nat p :: size_t) + 1) = Suc (unat (of_nat p :: size_t))"
      by (rule unat_succ_below)
    then show ?thesis by (simp add: l add.commute)
  qed
  ultimately show ?thesis by simp
qed

theorem illegal_byte_witness:
  "calls (new_Lexer [CHR ''x'', CHR 0xE9]) 1 =
     Inr ([\<lparr>type = IDENTIFIER, literal = ''x''\<rparr>],
          \<lparr>input = [CHR ''x'', CHR 0xE9], position = 1, readPosition = 2, ch = CHR 0xE9\<rparr>) \<and>
   \<not> isWhitespace (CHR 0xE9) \<and> CHR 0xE9 \<noteq> CHR 0x00 \<and> CHR 0xE9 \<notin> set ''=+-*/()'' \<and>
   \<not> isdigit (CHR 0xE9) \<and> \<not> isalpha (CHR 0xE9) \<and> CHR 0xE9 \<noteq> CHR ''_'' \<and>
   nextToken \<lparr>input = [CHR ''x'', CHR 0xE9], position = 1, readPosition = 2, ch = CHR 0xE9\<rparr> =
     Inr (\<lparr>type = ILLEGAL, literal = [CHR 0xE9]\<rparr>,
          \<lparr>input = [CHR ''x'', CHR 0xE9], position = 2, readPosition = 3, ch = CHR 0x00\<rparr>)"
proof -
  let ?l = "\<lparr>input = [CHR ''x'', CHR 0xE9], position = 1, readPosition = 2, ch = CHR 0xE9\<rparr>"
  have h1: "calls (new_Lexer [CHR ''x'', CHR 0xE9]) 1 =
              Inr ([\<lparr>type = IDENTIFIER, literal = ''x''\<rparr>], ?l)"
    by code_simp
  have h2: "ch ?l = CHR 0xE9" by simp
  have h3: "\<not> isWhitespace (CHR 0xE9)" by (simp add: isWhitespace_def)
  have h4: "CHR 0xE9 \<noteq> CHR 0x00" by simp
  have h5: "CHR 0xE9 \<notin> set ''=+-*/()''" by simp
  have h6: "\<not> isdigit (CHR 0xE9)" by (simp add: isdigit_def)
  have h7: "\<not> isalpha (CHR 0xE9)" by (simp add: isalpha_def)
  have h8: "CHR 0xE9 \<noteq> CHR ''_''" by simp
  have r: "readChar ?l =
     \<lparr>input = [CHR ''x'', CHR 0xE9], position = 2, readPosition = 3, ch = CHR 0x00\<rparr>"
    by (simp add: readChar_def)
  from illegal_byte [OF h1 h2 h3 h4 h5 h6 h7 h8] h1 h3 h4 h5 h6 h7 h8 r
  show ?thesis by simp
qed

text \<open>
  Claim C7. Scanning \<^verbatim>\<open>letx\<close> yields one IDENTIFIER token with the text "letx" and then
  END_OF_FILE; and in every state reached by calls from the constructor, a token of kind
  LET or IDENTIFIER carries the whole run of letters and underscores at the cursor (after
  the whitespace; the input being shorter than \<open>SIZE_MAX\<close>, as every \<^verbatim>\<open>std::string\<close>
  is), and its kind is LET if and only if its text is exactly "let".
\<close>

theorem keyword_exact:
  "tokens ''letx'' = Inr [\<lparr>type = IDENTIFIER, literal = ''letx''\<rparr>, eof_token] \<and>
   (\<forall>inp n toks l tok l'.
      calls (new_Lexer inp) n = Inr (toks, l) \<and> nextToken l = Inr (tok, l') \<and>
      (type tok = LET \<or> type tok = IDENTIFIER) \<longrightarrow>
        (length inp < SIZE_MAX \<longrightarrow>
           literal tok =
             takeWhile isIdentChar (drop (unat (position (skipWhitespace l))) inp)) \<and>
        (type tok = LET \<longleftrightarrow> literal tok = ''let''))"
proof (intro conjI allI impI)
  show "tokens ''letx'' = Inr [\<lparr>type = IDENTIFIER, literal = ''letx''\<rparr>, eof_token]"
    by code_simp
next
  fix inp n toks l tok l'
  assume a: "calls (new_Lexer inp) n = Inr (toks, l) \<and> nextToken l = Inr (tok, l') \<and>
             (type tok = LET \<or> type tok = IDENTIFIER)"
  then obtain r where sk: "skipWhitespace l = cursor inp r"
    and tok: "tok = classify (rest inp r)"
    using nextToken_reachable [of inp n toks l tok l'] by blast
  from a have "type (classify (rest inp r)) = LET \<or> type (classify (rest inp r)) = IDENTIFIER"
    by (simp add: tok)
  note ci = classify_ident [OF this]
  from ci show "type tok = LET \<longleftrightarrow> literal tok = ''let''"
    by (simp add: tok)
  assume "length inp < SIZE_MAX"
  then have "visible inp = inp" by (intro visible_id) (simp add: SIZE_MAX_def)
  then have "rest inp r = drop (unat (position (skipWhitespace l))) inp"
    by (simp add: rest_def sk)
  with ci show "literal tok =
      takeWhile isIdentChar (drop (unat (position (skipWhitespace l))) inp)"
    by (simp add: tok)
qed

theorem keyword_exact_witness:
  "calls (new_Lexer ''let lets'') 1 =
     Inr ([\<lparr>type = LET, literal = ''let''\<rparr>],
          \<lparr>input = ''let lets'', position = 3, readPosition = 4, ch = CHR '' ''\<rparr>) \<and>
   nextToken \<lparr>input = ''let lets'', position = 3, readPosition = 4, ch = CHR '' ''\<rparr> =
     Inr (\<lparr>type = IDENTIFIER, literal = ''lets''\<rparr>,
          \<lparr>input = ''let lets'', position = 8, readPosition = 9, ch = CHR 0x00\<rparr>) \<and>
   length ''let lets'' < SIZE_MAX \<and>
   ''lets'' = takeWhile isIdentChar (drop (unat (position (skipWhitespace
       \<lparr>input = ''let lets'', position = 3, readPosition = 4, ch = CHR '' ''\<rparr>))) ''let lets'') \<and>
   ''lets'' \<noteq> ''let''"
proof -
  let ?l = "\<lparr>input = ''let lets'', position = 3, readPosition = 4, ch = CHR '' ''\<rparr>"
  let ?l' = "\<lparr>input = ''let lets'', position = 8, readPosition = 9, ch = CHR 0x00\<rparr>"
  let ?tok = "\<lparr>type = IDENTIFIER, literal = ''lets''\<rparr>"
  have h1: "calls (new_Lexer ''let lets'') 1 = Inr ([\<lparr>type = LET, literal = ''let''\<rparr>], ?l)"
    by code_simp
  have h2: "nextToken ?l = Inr (?tok, ?l')"
    by code_simp
  have h3: "type ?tok = LET \<or> type ?tok = IDENTIFIER" by simp
  have h4: "length ''let lets'' < SIZE_MAX" by (simp add: SIZE_MAX_def)
  from keyword_exact have
    "calls (new_Lexer ''let lets'') 1 = Inr ([\<lparr>type = LET, literal = ''let''\<rparr>], ?l) \<and>
     nextToken ?l = Inr (?tok, ?l') \<and> (type ?tok = LET \<or> type ?tok = IDENTIFIER) \<longrightarrow>
       (length ''let lets'' < SIZE_MAX \<longrightarrow>
          literal ?tok =
            takeWhile isIdentChar (drop (unat (position (skipWhitespace ?l))) ''let lets'')) \<and>
       (type ?tok = LET \<longleftrightarrow> literal ?tok = ''let'')"
    by blast
  with h1 h2 h3 h4 show ?thesis by simp
qed

text \<open>
  Claim C8 (as stated, for every input string: after the constructor and after every call
  \<^verbatim>\<open>position\<close> is less than \<^verbatim>\<open>readPosition\<close>, and \<^verbatim>\<open>position\<close> never decreases).
  The claim fails once \<^verbatim>\<open>readPosition\<close> wraps: on the input \<^verbatim>\<open>a\<close>, after
  \<open>2 ^ 64 - 1\<close> calls (all but the first return END_OF_FILE, and each runs the
  \<^verbatim>\<open>readChar\<close> of line 156) \<^verbatim>\<open>position\<close> is \<open>2 ^ 64 - 1\<close> and \<^verbatim>\<open>readPosition\<close> is 0.
\<close>

theorem position_invariant_counterexample:
  "calls (new_Lexer ''a'') 18446744073709551615 =
     Inr (\<lparr>type = IDENTIFIER, literal = ''a''\<rparr> # replicate 18446744073709551614 eof_token,
          \<lparr>input = ''a'', position = 18446744073709551615, readPosition = 0,
           ch = CHR 0x00\<rparr>) \<and>
   \<not> (18446744073709551615 :: size_t) < 0"
proof -
  have "rest ''a'' 18446744073709551615 = []"
    by (intro rest_beyond) simp_all
  then have "cursor ''a'' (Suc 18446744073709551614) =
      \<lparr>input = ''a'', position = 18446744073709551615, readPosition = 0, ch = CHR 0x00\<rparr>"
    by (simp add: cursor_def)
  with calls_a [of 18446744073709551614] show ?thesis by simp
qed

text \<open>
  Claim C8, amended: for every input string and all numbers \<open>n\<close> and \<open>m\<close> of calls with
  the length of the input plus \<open>n + m\<close> below \<open>SIZE_MAX\<close>: after the constructor
  (\<open>n = 0\<close>) and after \<open>n\<close> calls, the calls have succeeded and \<^verbatim>\<open>position\<close> is less
  than \<^verbatim>\<open>readPosition\<close>; and \<^verbatim>\<open>position\<close> after \<open>m\<close> further calls is not less than
  before them.
\<close>

theorem position_invariant:
  assumes bound: "length inp + n + m < SIZE_MAX"
  shows "\<exists>toks l. calls (new_Lexer inp) n = Inr (toks, l) \<and> position l < readPosition l \<and>
     (\<forall>toks' l'. calls (new_Lexer inp) (n + m) = Inr (toks', l') \<longrightarrow> position l \<le> position l')"
proof -
  from bound have b: "Suc (length inp + n + m) < 2 ^ 64" by (simp add: SIZE_MAX_def)
  then have "max 0 (length inp) + n < 2 ^ 64" by simp
  then obtain toks q where c1: "calls (cursor inp 0) n = Inr (toks, cursor inp q)"
    and q: "q \<le> max 0 (length inp) + n"
    using calls_cursor_bound [of 0 inp n] by blast
  from q b have "max q (length inp) + m < 2 ^ 64" by simp
  then obtain toks' q' where c2: "calls (cursor inp q) m = Inr (toks', cursor inp q')"
    and le: "q + m \<le> q'" and q': "q' \<le> max q (length inp) + m"
    using calls_cursor_bound [of q inp m] by blast
  have c3: "calls (cursor inp 0) (n + m) = Inr (toks @ toks', cursor inp q')"
    by (simp add: calls_add c1 c2)
  from q b have "Suc q < 2 ^ 64" by simp
  then have i1: "position (cursor inp q) < readPosition (cursor inp q)"
    unfolding cursor_sel by (intro of_nat_less_small) simp_all
  from q q' b have "q' < 2 ^ 64" by simp
  with le have i2: "position (cursor inp q) \<le> position (cursor inp q')"
    unfolding cursor_sel by (intro of_nat_le_small) simp_all
  from c1 c3 i1 i2 show ?thesis
    by (auto simp: new_Lexer_cursor)
qed

theorem position_invariant_witness:
  "length ''a b'' + 1 + 3 < SIZE_MAX \<and>
   calls (new_Lexer ''a b'') 1 =
     Inr ([\<lparr>type = IDENTIFIER, literal = ''a''\<rparr>],
          \<lparr>input = ''a b'', position = 1, readPosition = 2, ch = CHR '' ''\<rparr>) \<and>
   calls (new_Lexer ''a b'') (1 + 3) =
     Inr ([\<lparr>type = IDENTIFIER, literal = ''a''\<rparr>, \<lparr>type = IDENTIFIER, literal = ''b''\<rparr>,
           eof_token, eof_token],
          \<lparr>input = ''a b'', position = 5, readPosition = 6, ch = CHR 0x00\<rparr>) \<and>
   (1 :: size_t) < 2 \<and> (1 :: size_t) \<le> 5"
proof -
  have h0: "length ''a b'' + 1 + 3 < SIZE_MAX" by (simp add: SIZE_MAX_def)
  have h1: "calls (new_Lexer ''a b'') 1 =
     Inr ([\<lparr>type = IDENTIFIER, literal = ''a''\<rparr>],
          \<lparr>input = ''a b'', position = 1, readPosition = 2, ch = CHR '' ''\<rparr>)"
    by code_simp
  have h2: "calls (new_Lexer ''a b'') (1 + 3) =
     Inr ([\<lparr>type = IDENTIFIER, literal = ''a''\<rparr>, \<lparr>type = IDENTIFIER, literal = ''b''\<rparr>,
           eof_token, eof_token],
          \<lparr>input = ''a b'', position = 5, readPosition = 6, ch = CHR 0x00\<rparr>)"
    by code_simp
  from position_invariant [OF h0] h0 h1 h2 show ?thesis by simp
qed

text \<open>
  Claim C9. For every input string and every number of calls from the constructor, the calls
  have returned, the next call returns a token too (it raises no exception), and each of
  the three loops is a number of \<^verbatim>\<open>readChar\<close> steps that is at most the number of input
  characters from the cursor on. (The three loops are total functions: their termination
  is proved where they are defined.)
\<close>

theorem nextToken_terminates:
  "\<exists>toks l tok l'.
     calls (new_Lexer inp) n = Inr (toks, l) \<and> nextToken l = Inr (tok, l') \<and>
     (\<exists>k\<le>length inp - unat (position l). skipWhitespace l = (readChar ^^ k) l) \<and>
     (\<exists>k\<le>length inp - unat (position (skipWhitespace l)).
        readNumber_loop (skipWhitespace l) = (readChar ^^ k) (skipWhitespace l)) \<and>
     (\<exists>k\<le>length inp - unat (position (skipWhitespace l)).
        readIdentifier_loop (skipWhitespace l) = (readChar ^^ k) (skipWhitespace l))"
proof -
  obtain toks p where c: "calls (cursor inp 0) n = Inr (toks, cursor inp p)"
    using calls_cursor [of inp 0 n] by blast
  obtain tok q where t: "nextToken (cursor inp p) = Inr (tok, cursor inp q)"
    using nextToken_cursor_ex [of inp p] by blast
  let ?l = "cursor inp p"
  define r where "r = p + length (takeWhile isWhitespace (rest inp p))"
  have sk: "skipWhitespace ?l = cursor inp r"
    unfolding r_def by (rule skipWhitespace_cursor)
  have bound: "length (takeWhile P (rest inp j)) \<le> length inp - unat (position (cursor inp j))"
    for P j
    using length_takeWhile_le [of P "rest inp j"] length_rest_le [of inp j] by simp
  have "\<exists>k\<le>length inp - unat (position ?l). skipWhitespace ?l = (readChar ^^ k) ?l"
    using bound [of isWhitespace p]
    by (intro exI [of _ "length (takeWhile isWhitespace (rest inp p))"])
       (simp add: skipWhitespace_cursor iterate_readChar_cursor)
  moreover have "\<exists>k\<le>length inp - unat (position (skipWhitespace ?l)).
      readNumber_loop (skipWhitespace ?l) = (readChar ^^ k) (skipWhitespace ?l)"
    unfolding sk using bound [of isdigit r]
    by (intro exI [of _ "length (takeWhile isdigit (rest inp r))"])
       (simp add: readNumber_loop_cursor iterate_readChar_cursor)
  moreover have "\<exists>k\<le>length inp - unat (position (skipWhitespace ?l)).
      readIdentifier_loop (skipWhitespace ?l) = (readChar ^^ k) (skipWhitespace ?l)"
    unfolding sk using bound [of isIdentChar r]
    by (intro exI [of _ "length (takeWhile isIdentChar (rest inp r))"])
       (simp add: readIdentifier_loop_cursor iterate_readChar_cursor)
  ultimately show ?thesis
    using c t unfolding new_Lexer_cursor by blast
qed

text \<open>
  Claim C10. For every token returned in a state reached by calls from the constructor, the
  text is empty if and only if the kind is END_OF_FILE; a NUMBER, IDENTIFIER or LET token
  carries at least one character, a symbol token carries exactly its symbol, and an ILLEGAL
  token carries exactly one character.
\<close>

theorem token_text_shape:
  assumes reach: "calls (new_Lexer inp) n = Inr (toks, l)"
    and call: "nextToken l = Inr (tok, l')"
  shows "(literal tok = [] \<longleftrightarrow> type tok = END_OF_FILE) \<and>
         (type tok \<in> {NUMBER, IDENTIFIER, LET} \<longrightarrow> 1 \<le> length (literal tok)) \<and>
         (type tok = EQUALS \<longrightarrow> literal tok = ''='') \<and>
         (type tok = PLUS \<longrightarrow> literal tok = ''+'') \<and>
         (type tok = MINUS \<longrightarrow> literal tok = ''-'') \<and>
         (type tok = STAR \<longrightarrow> literal tok = ''*'') \<and>
         (type tok = SLASH \<longrightarrow> literal tok = ''/'') \<and>
         (type tok = OPEN_PAREN \<longrightarrow> literal tok = ''('') \<and>
         (type tok = CLOSE_PAREN \<longrightarrow> literal tok = '')'') \<and>
         (type tok = ILLEGAL \<longrightarrow> length (literal tok) = 1)"
proof -
  obtain r where tok: "tok = classify (rest inp r)"
    using reach call by (rule nextToken_reachable)
  show ?thesis unfolding tok by (rule classify_shape)
qed

theorem token_text_shape_witness:
  "calls (new_Lexer ''7+'') 1 =
     Inr ([\<lparr>type = NUMBER, literal = ''7''\<rparr>],
          \<lparr>input = ''7+'', position = 1, readPosition = 2, ch = CHR ''+''\<rparr>) \<and>
   nextToken \<lparr>input = ''7+'', position = 1, readPosition = 2, ch = CHR ''+''\<rparr> =
     Inr (\<lparr>type = PLUS, literal = ''+''\<rparr>,
          \<lparr>input = ''7+'', position = 2, readPosition = 3, ch = CHR 0x00\<rparr>) \<and>
   (literal \<lparr>type = PLUS, literal = ''+''\<rparr> = [] \<longleftrightarrow>
      type \<lparr>type = PLUS, literal = ''+''\<rparr> = END_OF_FILE) \<and>
   literal \<lparr>type = PLUS, literal = ''+''\<rparr> = ''+''"
proof -
  let ?l = "\<lparr>input = ''7+'', position = 1, readPosition = 2, ch = CHR ''+''\<rparr>"
  let ?l' = "\<lparr>input = ''7+'', position = 2, readPosition = 3, ch = CHR 0x00\<rparr>"
  have h1: "calls (new_Lexer ''7+'') 1 = Inr ([\<lparr>type = NUMBER, literal = ''7''\<rparr>], ?l)"
    by code_simp
  have h2: "nextToken ?l = Inr (\<lparr>type = PLUS, literal = ''+''\<rparr>, ?l')"
    by code_simp
  from token_text_shape [OF h1 h2] h1 h2 show ?thesis by simp
qed

end
